theory Spec2Isabelle
  imports Main "HOL-Library.AList" "HOL-Library.Multiset" "HOL-Library.Sublist"
    "HOL-Library.Char_ord" "HOL-Library.List_Lexorder" "HOL-Library.Word"
begin

section \<open>JavaScript values and records\<close>

text \<open>
  The values that occur as grouping keys are the primitive values a parsed JSON response
  can hold in a field, \<open>undefined\<close>, and the members every plain object inherits from
  \<open>Object.prototype\<close>. Numbers are the integers from \<open>-2^53\<close> to \<open>2^53 - 1\<close>, which a
  JavaScript number holds exactly and \<open>ToString\<close> writes in plain decimal; fractional
  numbers, \<open>NaN\<close> and the infinities are outside this model. A string is the list of its
  code units, compared unit by unit as JavaScript does.

  \<open>JInherited name\<close> is the object found under \<open>name\<close> in \<open>Object.prototype\<close>: a
  built-in function, and for \<open>__proto__\<close> the prototype itself. It is one object for all
  records, so as a key it is equal to itself only. The prototype is written
  \<open>[object Object]\<close>; a built-in function is written \<open>function name() { [native code] }\<close>,
  where engines differ in the white space only.
\<close>

datatype jsvalue =
    JUndefined
  | JNull
  | JBool bool
  | JNum "54 word"
  | JStr string
  | JInherited string

definition digit_char :: "nat \<Rightarrow> char" where
  "digit_char d = ''0123456789'' ! d"

fun nat_to_string :: "nat \<Rightarrow> string" where
  "nat_to_string n =
     (if n < 10 then [digit_char n]
      else nat_to_string (n div 10) @ [digit_char (n mod 10)])"

declare nat_to_string.simps [simp del]

definition Number_toString :: "54 word \<Rightarrow> string" where
  "Number_toString w =
     (let i = sint w
      in if i < 0 then CHR ''-'' # nat_to_string (nat (- i)) else nat_to_string (nat i))"

definition Object_prototype_names :: "string list" where
  "Object_prototype_names =
     [''constructor'', ''__defineGetter__'', ''__defineSetter__'', ''hasOwnProperty'',
      ''__lookupGetter__'', ''__lookupSetter__'', ''isPrototypeOf'', ''propertyIsEnumerable'',
      ''toString'', ''valueOf'', ''__proto__'', ''toLocaleString'']"

definition Function_toString :: "string \<Rightarrow> string" where
  "Function_toString name = ''function '' @ name @ ''() { [native code] }''"

fun ToString :: "jsvalue \<Rightarrow> string" where
  "ToString JUndefined = ''undefined''"
| "ToString JNull = ''null''"
| "ToString (JBool b) = (if b then ''true'' else ''false'')"
| "ToString (JNum w) = Number_toString w"
| "ToString (JStr s) = s"
| "ToString (JInherited name) =
     (if name = ''__proto__'' then ''[object Object]''
      else if name = ''constructor'' then Function_toString ''Object''
      else Function_toString name)"

text \<open>
  A record is a plain object: its own properties, in the order they were created.
  \<open>obj[propName]\<close> gives the record's own property of that name, else the member of
  \<open>Object.prototype\<close> of that name, else \<open>undefined\<close>.
\<close>

type_synonym jsrecord = "(string \<times> jsvalue) list"

definition get_prop :: "jsrecord \<Rightarrow> string \<Rightarrow> jsvalue" where
  "get_prop obj propName =
     (case map_of obj propName of
        Some v \<Rightarrow> v
      | None \<Rightarrow> if propName \<in> set Object_prototype_names then JInherited propName
                else JUndefined)"

section \<open>The key selector\<close>

text \<open>
  \<open>property\<close> is a field name or a function. Lines 17 to 20 of \<open>groupBy\<close> turn a field
  name into the function that reads the field.
\<close>

datatype selector = Field string | Fun "jsrecord \<Rightarrow> jsvalue"

fun to_function :: "selector \<Rightarrow> jsrecord \<Rightarrow> jsvalue" where
  "to_function (Fun f) = f"
| "to_function (Field propName) = (\<lambda>obj. get_prop obj propName)"

section \<open>Map and plain objects\<close>

text \<open>
  A \<open>Map\<close> keeps its entries in insertion order; \<open>set\<close> on a key that is present
  replaces the value where it stands, and on a new key adds an entry at the end. Keys are
  compared by SameValueZero, which on the values of \<open>jsvalue\<close> is equality. \<open>get\<close> of an
  absent key is \<open>undefined\<close>, here \<open>None\<close>.
\<close>

type_synonym 'v jsmap = "(jsvalue \<times> 'v) list"

definition Map_has :: "'v jsmap \<Rightarrow> jsvalue \<Rightarrow> bool" where
  "Map_has m k = (k \<in> fst ` set m)"

definition Map_set :: "'v jsmap \<Rightarrow> jsvalue \<Rightarrow> 'v \<Rightarrow> 'v jsmap" where
  "Map_set m k v = AList.update k v m"

definition Map_get :: "'v jsmap \<Rightarrow> jsvalue \<Rightarrow> 'v option" where
  "Map_get m k = map_of m k"

definition Map_keys :: "'v jsmap \<Rightarrow> jsvalue list" where
  "Map_keys m = map fst m"

text \<open>
  \<open>Array.prototype.sort\<close> without a comparison function: the \<open>undefined\<close> elements go
  to the end, the others are ordered by their strings, and the sort is stable.
\<close>

definition Array_sort :: "jsvalue list \<Rightarrow> jsvalue list" where
  "Array_sort ks =
     sort_key ToString (filter (\<lambda>k. k \<noteq> JUndefined) ks) @ filter (\<lambda>k. k = JUndefined) ks"

text \<open>
  The object \<open>groupBy\<close> builds: its own properties in creation order, each holding a
  value or \<open>undefined\<close> (\<open>None\<close>), and its prototype, \<open>None\<close> while that is
  \<open>Object.prototype\<close>. Assigning to a property that exists keeps its place. Assigning to
  \<open>__proto__\<close> creates no property: it makes the assigned object the prototype, and
  does nothing when the value is \<open>undefined\<close>.
\<close>

datatype 'v jsobject = JSObject (own: "(string \<times> 'v option) list") (proto: "'v option")

definition obj_set :: "'v jsobject \<Rightarrow> string \<Rightarrow> 'v option \<Rightarrow> 'v jsobject" where
  "obj_set ob k v =
     (if k = ''__proto__''
      then (case v of None \<Rightarrow> ob | Some p \<Rightarrow> JSObject (own ob) (Some p))
      else JSObject (AList.update k v (own ob)) (proto ob))"

text \<open>The value of an own property, \<open>None\<close> when it holds \<open>undefined\<close> or there is none.\<close>

definition obj_get :: "'v jsobject \<Rightarrow> string \<Rightarrow> 'v option" where
  "obj_get ob k = (case map_of (own ob) k of None \<Rightarrow> None | Some v \<Rightarrow> v)"

text \<open>
  Own keys are enumerated (\<open>Object.keys\<close>, \<open>for ... in\<close>) with the array indices first,
  in ascending numeric order, and then the other names in creation order. An array index
  is a canonical numeric string (the decimal form of a number, nothing else) below
  \<open>2^32 - 1\<close>.
\<close>

definition digit_value :: "char \<Rightarrow> nat option" where
  "digit_value c =
     (let n = (of_char c :: nat) in if 48 \<le> n \<and> n \<le> 57 then Some (n - 48) else None)"

fun parse_digits :: "nat \<Rightarrow> string \<Rightarrow> nat option" where
  "parse_digits acc [] = Some acc"
| "parse_digits acc (c # cs) =
     (case digit_value c of None \<Rightarrow> None | Some d \<Rightarrow> parse_digits (10 * acc + d) cs)"

definition array_index :: "string \<Rightarrow> nat option" where
  "array_index s =
     (if s = [] then None
      else case parse_digits 0 s of
             None \<Rightarrow> None
           | Some n \<Rightarrow> if nat_to_string n = s \<and> n < 2 ^ 32 - 1 then Some n else None)"

definition is_array_index :: "string \<Rightarrow> bool" where
  "is_array_index s = (array_index s \<noteq> None)"

definition index_value :: "string \<Rightarrow> nat" where
  "index_value s = (case array_index s of None \<Rightarrow> 0 | Some n \<Rightarrow> n)"

definition key_order :: "string list \<Rightarrow> string list" where
  "key_order ks =
     sort_key index_value (filter is_array_index ks) @ filter (\<lambda>k. \<not> is_array_index k) ks"

definition Object_keys :: "'v jsobject \<Rightarrow> string list" where
  "Object_keys ob = key_order (map fst (own ob))"

section \<open>groupBy\<close>

text \<open>
  The first loop (lines 22 to 30). \<open>groupedObjects.get(groupName).push(object)\<close> would
  raise a TypeError if \<open>get\<close> gave \<open>undefined\<close>; that branch is kept.
\<close>

datatype js_error = TypeError

fun group_loop ::
  "(jsrecord \<Rightarrow> jsvalue) \<Rightarrow> jsrecord list \<Rightarrow> jsrecord list jsmap \<Rightarrow> js_error + jsrecord list jsmap"
where
  "group_loop property [] groupedObjects = Inr groupedObjects"
| "group_loop property (object # objects) groupedObjects =
     (let groupName = property object;
          m = (if \<not> Map_has groupedObjects groupName
               then Map_set groupedObjects groupName []
               else groupedObjects)
      in case Map_get m groupName of
           None \<Rightarrow> Inl TypeError
         | Some bucket \<Rightarrow> group_loop property objects (Map_set m groupName (bucket @ [object])))"

text \<open>The second loop (lines 33 to 36): \<open>result[key] = groupedObjects.get(key)\<close>.\<close>

fun build_result :: "jsvalue list \<Rightarrow> 'v jsmap \<Rightarrow> 'v jsobject \<Rightarrow> 'v jsobject" where
  "build_result [] groupedObjects result = result"
| "build_result (key # keys) groupedObjects result =
     build_result keys groupedObjects
       (obj_set result (ToString key) (Map_get groupedObjects key))"

definition groupBy :: "jsrecord list \<Rightarrow> selector \<Rightarrow> js_error + jsrecord list jsobject" where
  "groupBy objects property =
     (case group_loop (to_function property) objects [] of
        Inl e \<Rightarrow> Inl e
      | Inr groupedObjects \<Rightarrow>
          Inr (build_result (Array_sort (Map_keys groupedObjects)) groupedObjects
                 (JSObject [] None)))"

text \<open>The groups a result holds in its own properties, in the order of its keys.\<close>

definition groups :: "'v jsobject \<Rightarrow> 'v list" where
  "groups ob = concat (map (\<lambda>k. case obj_get ob k of None \<Rightarrow> [] | Some g \<Rightarrow> [g]) (Object_keys ob))"

text \<open>The bucket a map holds for a key, empty when the key is absent.\<close>

definition bucket_of :: "'v list jsmap \<Rightarrow> jsvalue \<Rightarrow> 'v list" where
  "bucket_of m k = (case map_of m k of None \<Rightarrow> [] | Some b \<Rightarrow> b)"

text \<open>The names of an object after one more assignment to the name \<open>s\<close>.\<close>

definition add_key :: "string \<Rightarrow> string list \<Rightarrow> string list" where
  "add_key s acc = (if s \<in> set acc then acc else acc @ [s])"

section \<open>groupBy on a heap\<close>

text \<open>
  To say that \<open>groupBy\<close> leaves its input alone, the input array, the records, the
  bucket arrays and the result object are placed in a heap of cells, addressed by
  position. An array holds references to its elements. \<open>[]\<close> and \<open>{}\<close> allocate a cell
  at the end of the heap, \<open>push\<close> and the assignment \<open>result[key] = ...\<close> overwrite one.
  The \<open>Map\<close> is local to the call and stays a value; it maps a key to the reference of
  its bucket. A key function reads the record it is given and nothing else.

  The run gives \<open>None\<close> where a reference is followed that the heap does not hold, or an
  element of the array is not a record: such heaps are outside the model. Iterating
  over something that is not an array raises a TypeError.
\<close>

type_synonym addr = nat

datatype cell =
    RecordCell jsrecord
  | ArrayCell "addr list"
  | ObjectCell "addr jsobject"

type_synonym heap = "cell list"

definition deref :: "heap \<Rightarrow> addr \<Rightarrow> cell option" where
  "deref h a = (if a < length h then Some (h ! a) else None)"

definition alloc :: "heap \<Rightarrow> cell \<Rightarrow> heap \<times> addr" where
  "alloc h c = (h @ [c], length h)"

definition store :: "heap \<Rightarrow> addr \<Rightarrow> cell \<Rightarrow> heap" where
  "store h a c = h[a := c]"

fun group_loop_heap ::
  "(jsrecord \<Rightarrow> jsvalue) \<Rightarrow> addr list \<Rightarrow> addr jsmap \<Rightarrow> heap \<Rightarrow> (js_error + addr jsmap \<times> heap) option"
where
  "group_loop_heap property [] groupedObjects h = Some (Inr (groupedObjects, h))"
| "group_loop_heap property (object # objects) groupedObjects h =
     (case deref h object of
        Some (RecordCell r) \<Rightarrow>
          (let groupName = property r;
               (m, h1) = (if \<not> Map_has groupedObjects groupName
                          then (let (h', a) = alloc h (ArrayCell [])
                                in (Map_set groupedObjects groupName a, h'))
                          else (groupedObjects, h))
           in case Map_get m groupName of
                None \<Rightarrow> Some (Inl TypeError)
              | Some b \<Rightarrow>
                  (case deref h1 b of
                     Some (ArrayCell xs) \<Rightarrow>
                       group_loop_heap property objects m (store h1 b (ArrayCell (xs @ [object])))
                   | _ \<Rightarrow> None))
      | _ \<Rightarrow> None)"

fun build_result_heap :: "jsvalue list \<Rightarrow> addr jsmap \<Rightarrow> addr \<Rightarrow> heap \<Rightarrow> heap option" where
  "build_result_heap [] groupedObjects result h = Some h"
| "build_result_heap (key # keys) groupedObjects result h =
     (case deref h result of
        Some (ObjectCell ps) \<Rightarrow>
          build_result_heap keys groupedObjects result
            (store h result (ObjectCell (obj_set ps (ToString key) (Map_get groupedObjects key))))
      | _ \<Rightarrow> None)"

definition groupBy_heap ::
  "heap \<Rightarrow> addr \<Rightarrow> selector \<Rightarrow> (js_error + heap \<times> addr) option"
where
  "groupBy_heap h objects property =
     (case deref h objects of
        None \<Rightarrow> None
      | Some (ArrayCell refs) \<Rightarrow>
          (case group_loop_heap (to_function property) refs [] h of
             None \<Rightarrow> None
           | Some (Inl e) \<Rightarrow> Some (Inl e)
           | Some (Inr (groupedObjects, h1)) \<Rightarrow>
               (let (h2, result) = alloc h1 (ObjectCell (JSObject [] None))
                in case build_result_heap (Array_sort (Map_keys groupedObjects))
                          groupedObjects result h2 of
                     None \<Rightarrow> None
                   | Some h3 \<Rightarrow> Some (Inr (h3, result))))
      | Some _ \<Rightarrow> Some (Inl TypeError))"

text \<open>
  Reading a result back from the heap: the records an array refers to, and the object
  with each bucket read in this way.
\<close>

definition record_at :: "heap \<Rightarrow> addr \<Rightarrow> jsrecord" where
  "record_at h a = (case deref h a of Some (RecordCell x) \<Rightarrow> x | _ \<Rightarrow> [])"

definition elements_at :: "heap \<Rightarrow> addr \<Rightarrow> addr list" where
  "elements_at h a = (case deref h a of Some (ArrayCell xs) \<Rightarrow> xs | _ \<Rightarrow> [])"

definition read_bucket :: "heap \<Rightarrow> addr \<Rightarrow> jsrecord list" where
  "read_bucket h b = map (record_at h) (elements_at h b)"

definition read_map :: "heap \<Rightarrow> addr jsmap \<Rightarrow> jsrecord list jsmap" where
  "read_map h m = map (\<lambda>(k, b). (k, read_bucket h b)) m"

definition map_object :: "('a \<Rightarrow> 'b) \<Rightarrow> 'a jsobject \<Rightarrow> 'b jsobject" where
  "map_object f ob =
     JSObject (map (\<lambda>(s, v). (s, map_option f v)) (own ob)) (map_option f (proto ob))"

definition read_object :: "heap \<Rightarrow> addr \<Rightarrow> jsrecord list jsobject" where
  "read_object h a =
     (case deref h a of
        Some (ObjectCell ob) \<Rightarrow> map_object (read_bucket h) ob
      | _ \<Rightarrow> JSObject [] None)"

text \<open>The input as the caller sees it: an array of references to records.\<close>

definition is_record_at :: "heap \<Rightarrow> addr \<Rightarrow> bool" where
  "is_record_at h a = (case deref h a of Some (RecordCell x) \<Rightarrow> True | _ \<Rightarrow> False)"

definition is_array_at :: "heap \<Rightarrow> addr \<Rightarrow> bool" where
  "is_array_at h a = (case deref h a of Some (ArrayCell xs) \<Rightarrow> True | _ \<Rightarrow> False)"

definition record_array :: "heap \<Rightarrow> addr \<Rightarrow> addr list \<Rightarrow> bool" where
  "record_array h a refs =
     (deref h a = Some (ArrayCell refs) \<and> (\<forall>r\<in>set refs. is_record_at h r))"

text \<open>The loop's invariant: every bucket of the map is an array allocated by this call.\<close>

definition fresh_buckets :: "nat \<Rightarrow> addr jsmap \<Rightarrow> heap \<Rightarrow> bool" where
  "fresh_buckets n m h = (\<forall>(k, b)\<in>set m. n \<le> b \<and> is_array_at h b)"

section \<open>The page\<close>

text \<open>
  The document itself is not part of the sources, only the six elements the script
  looks up. An element has a tag, the properties the script sets on it and its children;
  text assigned through \<open>innerHTML\<close> is kept as the markup it was given.
\<close>

datatype element = Element (tag: string) (props: "(string \<times> string) list") (children: "node list")
  and node = Text string | Markup string | Child element

definition createElement :: "string \<Rightarrow> element" where
  "createElement t = Element t [] []"

definition set_innerHTML :: "element \<Rightarrow> string \<Rightarrow> element" where
  "set_innerHTML e s = Element (tag e) (props e) (if s = [] then [] else [Markup s])"

text \<open>\<open>textContent\<close> takes \<open>null\<close> and \<open>undefined\<close> as the empty string.\<close>

definition set_textContent :: "element \<Rightarrow> jsvalue \<Rightarrow> element" where
  "set_textContent e v =
     (let s = (case v of JUndefined \<Rightarrow> [] | JNull \<Rightarrow> [] | _ \<Rightarrow> ToString v)
      in Element (tag e) (props e) (if s = [] then [] else [Text s]))"

definition set_prop :: "element \<Rightarrow> string \<Rightarrow> string \<Rightarrow> element" where
  "set_prop e name s = Element (tag e) (AList.update name s (props e)) (children e)"

definition append_node :: "element \<Rightarrow> node \<Rightarrow> element" where
  "append_node e n = Element (tag e) (props e) (children e @ [n])"

text \<open>
  Assigning \<open>value\<close>: an \<open>output\<close> element replaces its content by the text; on other
  elements the assignment is kept as a property and shows nothing.
\<close>

definition set_value :: "element \<Rightarrow> string \<Rightarrow> element" where
  "set_value e s =
     (if tag e = ''output'' then Element (tag e) (props e) (if s = [] then [] else [Text s])
      else set_prop e ''value'' s)"

definition get_value :: "element \<Rightarrow> string" where
  "get_value e = (case map_of (props e) ''value'' of None \<Rightarrow> [] | Some s \<Rightarrow> s)"

text \<open>
  The globals of the script: the elements, the two arrays, the variable
  \<open>groupedResult\<close> that \<open>rhymeHandler\<close> assigns without declaring it, and the console.
\<close>

record page =
  outputDescription :: element
  wordOutput :: element
  wordInput :: element
  savedWords :: element
  savedWordsArray :: "string list"
  wordList :: "string list"
  groupedResult :: "jsrecord list jsobject"
  console :: "string list"

subsection \<open>Requests\<close>

text \<open>
  A promise is taken at the moment it settles. The network is the function that tells
  how \<open>fetch\<close> settles for a URL; a response carries what its \<open>json()\<close> settles to. A
  reaction runs on the page and gives what the derived promise settles to. The URL is
  kept as the query parameter and the word, the encoding of the word left out.
\<close>

datatype 'a promise = Fulfilled 'a | Rejected string

datatype response = Response (json: "jsrecord list promise")

datatype url = DatamuseWords string string

type_synonym network = "url \<Rightarrow> response promise"

fun then1 ::
  "'a promise \<Rightarrow> ('a \<Rightarrow> page \<Rightarrow> 'b promise \<times> page) \<Rightarrow> page \<Rightarrow> 'b promise \<times> page"
where
  "then1 (Fulfilled v) onFulfilled st = onFulfilled v st"
| "then1 (Rejected err) onFulfilled st = (Rejected err, st)"

fun then2 ::
  "'a promise \<Rightarrow> ('a \<Rightarrow> page \<Rightarrow> 'b promise \<times> page) \<Rightarrow> (string \<Rightarrow> page \<Rightarrow> 'b promise \<times> page) \<Rightarrow>
     page \<Rightarrow> 'b promise \<times> page"
where
  "then2 (Fulfilled v) onFulfilled onRejected st = onFulfilled v st"
| "then2 (Rejected err) onFulfilled onRejected st = onRejected err st"

definition console_error :: "string \<Rightarrow> page \<Rightarrow> page" where
  "console_error err st = st\<lparr>console := console st @ [err]\<rparr>"

text \<open>
  A callback that updates the page may throw; it gives the error, if any, and the page
  as it stands then. \<open>datamuseRequest\<close> is what happens to the page when the request of
  lines 66 to 73 settles.
\<close>

type_synonym callback = "jsrecord list \<Rightarrow> page \<Rightarrow> js_error option \<times> page"

definition datamuseRequest :: "network \<Rightarrow> url \<Rightarrow> callback \<Rightarrow> page \<Rightarrow> page" where
  "datamuseRequest fetch u callback st =
     (let (p1, st1) = then1 (fetch u) (\<lambda>response st. (json response, st)) st;
          (p2, st2) =
            then2 p1
              (\<lambda>data st. case callback data st of
                            (None, st') \<Rightarrow> (Fulfilled (), st')
                          | (Some e, st') \<Rightarrow> (Rejected ''TypeError'', st'))
              (\<lambda>err st. (Fulfilled (), console_error err st))
              st1
      in st2)"

definition getDatamuseRhymeUrl :: "page \<Rightarrow> string \<Rightarrow> url" where
  "getDatamuseRhymeUrl st rel_rhy = DatamuseWords ''rel_rhy'' (get_value (wordInput st))"

definition getDatamuseSimilarToUrl :: "page \<Rightarrow> string \<Rightarrow> url" where
  "getDatamuseSimilarToUrl st ml = DatamuseWords ''ml'' (get_value (wordInput st))"

subsection \<open>Saved words\<close>

text \<open>\<open>savedWords.append(wordList)\<close> appends the array as text, its entries joined by commas.\<close>

fun Array_join :: "string list \<Rightarrow> string" where
  "Array_join [] = []"
| "Array_join [w] = w"
| "Array_join (w # ws) = w @ '','' @ Array_join ws"

definition addToSavedWords :: "string \<Rightarrow> page \<Rightarrow> page" where
  "addToSavedWords word st =
     (let st1 = st\<lparr>savedWords := set_innerHTML (savedWords st) []\<rparr>;
          st2 = st1\<lparr>wordList := wordList st1 @ [word]\<rparr>;
          joined = Array_join (wordList st2)
      in st2\<lparr>savedWords := append_node (savedWords st2) (Text (Array_join (wordList st2)))\<rparr>)"

subsection \<open>The handlers\<close>

definition save_button :: element where
  "save_button =
     (let saveButton = createElement ''button'';
          saveButton = set_prop saveButton ''className'' ''save'';
          saveButton = set_innerHTML saveButton ''Save''
      in set_prop saveButton ''style.backgroundColor'' ''green'')"

definition list_item :: "jsvalue \<Rightarrow> element" where
  "list_item word =
     (let listItem = createElement ''li'';
          spanItem = set_textContent (createElement ''span'') word;
          listItem = append_node listItem (Child spanItem)
      in append_node listItem (Child save_button))"

definition append_word :: "jsvalue \<Rightarrow> page \<Rightarrow> page" where
  "append_word word st = st\<lparr>wordOutput := append_node (wordOutput st) (Child (list_item word))\<rparr>"

text \<open>One turn of the iteration over the items, for an item that is a record.\<close>

definition append_item :: "jsrecord \<Rightarrow> page \<Rightarrow> page" where
  "append_item item st = append_word (get_prop item ''word'') st"

definition append_header :: "jsvalue \<Rightarrow> page \<Rightarrow> page" where
  "append_header numSyllables st =
     (let groupHeader = createElement ''h3'';
          groupHeader = set_innerHTML groupHeader (''Syllables: '' @ ToString numSyllables)
      in st\<lparr>wordOutput := append_node (wordOutput st) (Child groupHeader)\<rparr>)"

text \<open>
  \<open>for (let group in groupedResult)\<close> visits the own keys and then, when the prototype
  has become a bucket, the indices of that array which no own key hides.
  \<open>groupedResult[group]\<close> is a bucket or \<open>undefined\<close> for an own key, and for an
  inherited index the record at that place of the prototype.
\<close>

datatype member = Missing | Group "jsrecord list" | Item jsrecord

definition for_in :: "jsrecord list jsobject \<Rightarrow> (string \<times> member) list" where
  "for_in ob =
     map (\<lambda>k. (k, case obj_get ob k of None \<Rightarrow> Missing | Some g \<Rightarrow> Group g)) (Object_keys ob) @
     (case proto ob of
        None \<Rightarrow> []
      | Some p \<Rightarrow>
          map (\<lambda>i. (nat_to_string i, Item (p ! i)))
            (filter (\<lambda>i. nat_to_string i \<notin> fst ` set (own ob)) [0..<length p]))"

text \<open>The names of a record as \<open>for ... in\<close> visits them.\<close>

definition record_keys :: "jsrecord \<Rightarrow> string list" where
  "record_keys r = key_order (fold add_key (map fst r) [])"

text \<open>
  \<open>v.numSyllables\<close> and \<open>v.word\<close> for a value \<open>v\<close> that is not a record: a TypeError on
  \<open>undefined\<close> and \<open>null\<close>, else \<open>undefined\<close>, no built-in object having such a member.
\<close>

definition read_member :: "jsvalue \<Rightarrow> js_error + jsvalue" where
  "read_member v =
     (case v of JUndefined \<Rightarrow> Inl TypeError | JNull \<Rightarrow> Inl TypeError | _ \<Rightarrow> Inr JUndefined)"

fun render_values :: "jsvalue list \<Rightarrow> page \<Rightarrow> js_error option \<times> page" where
  "render_values [] st = (None, st)"
| "render_values (v # vs) st =
     (case read_member v of
        Inl e \<Rightarrow> (Some e, st)
      | Inr word \<Rightarrow> render_values vs (append_word word st))"

text \<open>
  One turn of the loop over the groups (lines 128 to 146). \<open>wordGroup[0].numSyllables\<close>
  raises a TypeError when the group is \<open>undefined\<close> or empty. When \<open>wordGroup\<close> is a
  record, \<open>wordGroup[0]\<close> is its field \<open>0\<close> and the inner loop runs over its fields.
\<close>

definition render_group :: "member \<Rightarrow> page \<Rightarrow> js_error option \<times> page" where
  "render_group wordGroup st =
     (case wordGroup of
        Missing \<Rightarrow> (Some TypeError, st)
      | Group [] \<Rightarrow> (Some TypeError, st)
      | Group (first # rest) \<Rightarrow>
          (None, fold append_item (first # rest)
                   (append_header (get_prop first ''numSyllables'') st))
      | Item r \<Rightarrow>
          (case read_member (get_prop r ''0'') of
             Inl e \<Rightarrow> (Some e, st)
           | Inr numSyllables \<Rightarrow>
               render_values (map (get_prop r) (record_keys r)) (append_header numSyllables st)))"

fun render_groups :: "(string \<times> member) list \<Rightarrow> page \<Rightarrow> js_error option \<times> page" where
  "render_groups [] st = (None, st)"
| "render_groups ((name, wordGroup) # gs) st =
     (case render_group wordGroup st of
        (Some e, st') \<Rightarrow> (Some e, st')
      | (None, st') \<Rightarrow> render_groups gs st')"

definition rhyme_callback :: callback where
  "rhyme_callback result st =
     (case groupBy result (Field ''numSyllables'') of
        Inl e \<Rightarrow> (Some e, st)
      | Inr grouped \<Rightarrow>
          (let st1 = st\<lparr>groupedResult := grouped\<rparr>
           in if length (Object_keys (groupedResult st1)) = 0
              then (None, st1\<lparr>wordOutput := set_value (wordOutput st1) ''(no results)''\<rparr>)
              else render_groups (for_in (groupedResult st1)) st1))"

text \<open>
  The request is started in the middle of the handler and settles after the handler has
  run to its end, so its effect comes last.
\<close>

definition rhymeHandler :: "network \<Rightarrow> page \<Rightarrow> page" where
  "rhymeHandler fetch st =
     (let st1 = st\<lparr>outputDescription :=
                   set_innerHTML (outputDescription st)
                     (''Words that rhyme with '' @ get_value (wordInput st))\<rparr>;
          request = datamuseRequest fetch
                      (getDatamuseRhymeUrl st1 (get_value (wordInput st1))) rhyme_callback;
          st2 = st1\<lparr>wordInput := set_innerHTML (wordInput st1) []\<rparr>;
          st3 = st2\<lparr>wordOutput := set_textContent (wordOutput st2) (JStr [])\<rparr>
      in request st3)"

definition synonym_callback :: callback where
  "synonym_callback result st =
     (if length result = 0
      then (None, st\<lparr>wordOutput := set_value (wordOutput st) ''(no results)''\<rparr>)
      else (None, fold append_item result st))"

definition synonymHandler :: "network \<Rightarrow> page \<Rightarrow> page" where
  "synonymHandler fetch st =
     (let st1 = st\<lparr>outputDescription :=
                   set_innerHTML (outputDescription st)
                     (''Words with a similar meaning to '' @ get_value (wordInput st))\<rparr>;
          request = datamuseRequest fetch
                      (getDatamuseSimilarToUrl st1 (get_value (wordInput st1))) synonym_callback;
          st2 = st1\<lparr>wordInput := set_innerHTML (wordInput st1) []\<rparr>;
          st3 = st2\<lparr>wordOutput := set_textContent (wordOutput st2) (JStr [])\<rparr>
      in request st3)"

section \<open>The two passes of groupBy\<close>

lemma group_loop_step:
  "group_loop p (x # xs) m = group_loop p xs (AList.update (p x) (bucket_of m (p x) @ [x]) m)"
proof (cases "p x \<in> fst ` set m")
  case True
  then obtain b where "map_of m (p x) = Some b"
    by (metis map_of_eq_None_iff not_Some_eq)
  with True show ?thesis
    by (simp add: Map_has_def Map_get_def Map_set_def bucket_of_def)
next
  case False
  then have "map_of m (p x) = None"
    by (simp add: map_of_eq_None_iff)
  with False show ?thesis
    by (simp add: Map_has_def Map_get_def Map_set_def bucket_of_def update_conv')
qed

lemma group_loop_total: "\<exists>m'. group_loop p xs m = Inr m'"
proof (induction xs arbitrary: m)
  case Nil
  show ?case by simp
next
  case (Cons x xs)
  show ?case unfolding group_loop_step by (rule Cons.IH)
qed

lemma group_loop_keys:
  "group_loop p xs m = Inr m' \<Longrightarrow> fst ` set m' = fst ` set m \<union> p ` set xs"
proof (induction xs arbitrary: m)
  case Nil
  then show ?case by simp
next
  case (Cons x xs)
  from Cons.prems have "group_loop p xs (AList.update (p x) (bucket_of m (p x) @ [x]) m) = Inr m'"
    by (simp only: group_loop_step)
  from Cons.IH [OF this] show ?case
    by (auto simp: dom_update)
qed

lemma group_loop_distinct:
  "group_loop p xs m = Inr m' \<Longrightarrow> distinct (map fst m) \<Longrightarrow> distinct (map fst m')"
proof (induction xs arbitrary: m)
  case Nil
  then show ?case by simp
next
  case (Cons x xs)
  from Cons.prems(1) have "group_loop p xs (AList.update (p x) (bucket_of m (p x) @ [x]) m) = Inr m'"
    by (simp only: group_loop_step)
  from Cons.IH [OF this] Cons.prems(2) show ?case
    by (simp add: distinct_update)
qed

lemma group_loop_bucket:
  "group_loop p xs m = Inr m' \<Longrightarrow> k \<in> fst ` set m' \<Longrightarrow>
     map_of m' k = Some (bucket_of m k @ filter (\<lambda>x. p x = k) xs)"
proof (induction xs arbitrary: m)
  case Nil
  then show ?case
    by (auto simp: bucket_of_def map_of_eq_None_iff split: option.splits)
next
  case (Cons x xs)
  let ?m = "AList.update (p x) (bucket_of m (p x) @ [x]) m"
  from Cons.prems(1) have "group_loop p xs ?m = Inr m'"
    by (simp only: group_loop_step)
  from Cons.IH [OF this Cons.prems(2)]
  have "map_of m' k = Some (bucket_of ?m k @ filter (\<lambda>x. p x = k) xs)" .
  moreover have "bucket_of ?m k = (if p x = k then bucket_of m k @ [x] else bucket_of m k)"
    by (simp add: bucket_of_def update_conv')
  ultimately show ?case by simp
qed

lemma update_entry:
  "(a, b) \<in> set (AList.update k v al) \<Longrightarrow> (a, b) = (k, v) \<or> (a, b) \<in> set al"
  by (induction al) (auto split: if_splits)

lemma own_obj_set:
  "own (obj_set ob k v) = (if k = ''__proto__'' then own ob else AList.update k v (own ob))"
  by (simp add: obj_set_def split: option.splits)

lemma build_result_entry:
  "(s, v) \<in> set (own (build_result ks m r)) \<Longrightarrow>
     (s, v) \<in> set (own r) \<or> (\<exists>k\<in>set ks. s = ToString k \<and> v = map_of m k)"
proof (induction ks arbitrary: r)
  case Nil
  then show ?case by simp
next
  case (Cons k ks)
  from Cons.prems have
    "(s, v) \<in> set (own (build_result ks m (obj_set r (ToString k) (map_of m k))))"
    by (simp add: Map_get_def)
  from Cons.IH [OF this] show ?case
    by (auto simp: own_obj_set dest: update_entry split: if_splits)
qed

lemma build_result_keys:
  "map fst (own (build_result ks m r)) =
     fold add_key (filter (\<lambda>s. s \<noteq> ''__proto__'') (map ToString ks)) (map fst (own r))"
  by (induction ks arbitrary: r) (simp_all add: own_obj_set update_keys add_key_def)

lemma build_result_snoc:
  "build_result (ks @ [k]) m r = obj_set (build_result ks m r) (ToString k) (Map_get m k)"
  by (induction ks arbitrary: r) simp_all

lemma build_result_lookup:
  "map_of (own (build_result ks m r)) s =
     (if s \<noteq> ''__proto__'' \<and> s \<in> ToString ` set ks
      then Some (map_of m (last (filter (\<lambda>k. ToString k = s) ks)))
      else map_of (own r) s)"
proof (induction ks arbitrary: r)
  case Nil
  show ?case by simp
next
  case (Cons k ks)
  show ?case
    by (auto simp: Cons.IH own_obj_set Map_get_def update_conv' filter_empty_conv)
qed


lemma distinct_fold_add_key: "distinct acc \<Longrightarrow> distinct (fold add_key xs acc)"
  by (induction xs arbitrary: acc) (auto simp: add_key_def)


lemma fold_add_key_distinct_inj:
  "distinct xs \<Longrightarrow> set xs \<inter> set acc = {} \<Longrightarrow> fold add_key xs acc = acc @ xs"
  by (induction xs arbitrary: acc) (auto simp: add_key_def)

lemma groupBy_unfold:
  "groupBy objs sel = Inr r \<Longrightarrow>
     \<exists>m. group_loop (to_function sel) objs [] = Inr m \<and>
         r = build_result (Array_sort (map fst m)) m (JSObject [] None)"
  by (auto simp: groupBy_def Map_keys_def split: sum.splits)

lemma groupBy_total: "\<exists>r. groupBy objs sel = Inr r"
proof -
  obtain m where "group_loop (to_function sel) objs [] = Inr m"
    using group_loop_total by blast
  then show ?thesis by (simp add: groupBy_def)
qed

lemma set_Array_sort: "set (Array_sort ks) = set ks"
  by (auto simp: Array_sort_def)

lemma distinct_Array_sort: "distinct ks \<Longrightarrow> distinct (Array_sort ks)"
  by (auto simp: Array_sort_def)

lemma Array_sort_defined:
  "JUndefined \<notin> set ks \<Longrightarrow> Array_sort ks = sort_key ToString ks"
proof -
  assume a: "JUndefined \<notin> set ks"
  then have "filter (\<lambda>k. k \<noteq> JUndefined) ks = ks" "filter (\<lambda>k. k = JUndefined) ks = []"
    by (auto simp: filter_empty_conv intro: filter_True)
  then show ?thesis by (simp add: Array_sort_def)
qed

lemma Array_sort_undefined_last:
  "distinct ks \<Longrightarrow> JUndefined \<in> set ks \<Longrightarrow>
     \<exists>xs. Array_sort ks = xs @ [JUndefined]"
proof -
  assume d: "distinct ks" and u: "JUndefined \<in> set ks"
  have "filter (\<lambda>k. k = JUndefined) ks = [JUndefined]"
    using d u by (induction ks) (auto simp: filter_empty_conv)
  then show ?thesis by (simp add: Array_sort_def)
qed







lemma set_Object_keys: "set (Object_keys ob) = fst ` set (own ob)"
  by (auto simp: Object_keys_def key_order_def)

lemma mset_Object_keys: "mset (Object_keys ob) = mset (map fst (own ob))"
  by (simp add: Object_keys_def key_order_def)

section \<open>Properties of groupBy\<close>

lemma groupBy_facts:
  assumes "groupBy objs sel = Inr r"
  shows "\<exists>m. r = build_result (Array_sort (map fst m)) m (JSObject [] None) \<and>
           distinct (map fst m) \<and>
           fst ` set m = to_function sel ` set objs \<and>
           (\<forall>k\<in>fst ` set m. map_of m k = Some (filter (\<lambda>x. to_function sel x = k) objs))"
proof -
  from groupBy_unfold [OF assms] obtain m where
    m: "group_loop (to_function sel) objs [] = Inr m"
    and r: "r = build_result (Array_sort (map fst m)) m (JSObject [] None)" by blast
  have "distinct (map fst m)" using group_loop_distinct [OF m] by simp
  moreover have "fst ` set m = to_function sel ` set objs"
    using group_loop_keys [OF m] by simp
  moreover have "\<forall>k\<in>fst ` set m. map_of m k = Some (filter (\<lambda>x. to_function sel x = k) objs)"
    using group_loop_bucket [OF m] by (simp add: bucket_of_def)
  ultimately show ?thesis using r by (intro exI [of _ m]) simp
qed

lemma groups_entry: "g \<in> set (groups ob) \<Longrightarrow> \<exists>s. (s, Some g) \<in> set (own ob)"
  by (auto simp: groups_def obj_get_def split: option.splits dest: map_of_SomeD)

text \<open>
  C3: every group of the result is a subsequence of the input: it is the input filtered
  by one value of the key, so its records stand in the order they had in the input.
\<close>

theorem groupBy_stable:
  assumes "groupBy objs sel = Inr r" and "g \<in> set (groups r)"
  shows "subseq g objs \<and> (\<exists>k. g = filter (\<lambda>x. to_function sel x = k) objs)"
proof -
  from groupBy_facts [OF assms(1)] obtain m where
    r: "r = build_result (Array_sort (map fst m)) m (JSObject [] None)"
    and b: "\<forall>k\<in>fst ` set m. map_of m k = Some (filter (\<lambda>x. to_function sel x = k) objs)"
    by blast
  from groups_entry [OF assms(2)] obtain s where "(s, Some g) \<in> set (own r)" by blast
  with r build_result_entry obtain k where "k \<in> set (Array_sort (map fst m))" "map_of m k = Some g"
    by fastforce
  then have "k \<in> fst ` set m" by (simp add: set_Array_sort)
  with b \<open>map_of m k = Some g\<close> have "g = filter (\<lambda>x. to_function sel x = k) objs"
    by (metis option.inject)
  then show ?thesis by auto
qed

lemma group_loop_cong:
  "\<forall>x\<in>set xs. p x = q x \<Longrightarrow> group_loop p xs m = group_loop q xs m"
proof (induction xs arbitrary: m)
  case Nil
  show ?case by simp
next
  case (Cons x xs)
  then show ?case by (simp add: group_loop_step del: group_loop.simps)
qed

text \<open>
  C4: when every record holds in the field \<open>fld\<close> the value the function \<open>f\<close> gives
  for it, grouping by the function and grouping by the field name give the same result.
\<close>

theorem groupBy_function_as_field:
  assumes "\<forall>x\<in>set objs. get_prop x fld = f x"
  shows "groupBy objs (Field fld) = groupBy objs (Fun f)"
proof -
  have "group_loop (to_function (Field fld)) objs [] = group_loop (to_function (Fun f)) objs []"
    by (rule group_loop_cong) (simp add: assms)
  then show ?thesis by (simp only: groupBy_def)
qed

text \<open>
  C7: on the empty sequence \<open>groupBy\<close> returns the object with no property, whatever the
  key selector; it has no key and no group.
\<close>

theorem groupBy_empty:
  "groupBy [] sel = Inr (JSObject [] None) \<and>
   Object_keys (JSObject [] None :: jsrecord list jsobject) = [] \<and>
   groups (JSObject [] None :: jsrecord list jsobject) = []"
  by (simp add: groupBy_def Map_keys_def Array_sort_def Object_keys_def key_order_def groups_def)

text \<open>
  C6, as amended: when the selector gives \<open>undefined\<close> for a record of the input, as it
  does for a field name the record does not own and plain objects do not inherit,
  \<open>groupBy\<close> raises no error, and the result has the key \<open>undefined\<close> whose group is
  the records with that key, the record among them.
\<close>

theorem groupBy_undefined_group:
  assumes "x \<in> set objs"
    and "(\<exists>fld. sel = Field fld \<and> map_of x fld = None \<and> fld \<notin> set Object_prototype_names) \<or>
         to_function sel x = JUndefined"
  shows "\<exists>r. groupBy objs sel = Inr r \<and>
           obj_get r ''undefined'' = Some (filter (\<lambda>y. to_function sel y = JUndefined) objs) \<and>
           x \<in> set (filter (\<lambda>y. to_function sel y = JUndefined) objs) \<and>
           ''undefined'' \<in> set (Object_keys r)"
proof -
  obtain r where gr: "groupBy objs sel = Inr r" using groupBy_total by blast
  from groupBy_facts [OF gr] obtain m where
    r: "r = build_result (Array_sort (map fst m)) m (JSObject [] None)"
    and d: "distinct (map fst m)"
    and ks: "fst ` set m = to_function sel ` set objs"
    and b: "\<forall>k\<in>fst ` set m. map_of m k = Some (filter (\<lambda>x. to_function sel x = k) objs)"
    by blast
  have ux: "to_function sel x = JUndefined"
    using assms(2) by (auto simp: get_prop_def)
  have u: "JUndefined \<in> fst ` set m" using assms(1) ux ks by force
  then have "JUndefined \<in> set (map fst m)" by simp
  from Array_sort_undefined_last [OF d this] obtain xs where
    "Array_sort (map fst m) = xs @ [JUndefined]" by blast
  with r have
    "r = obj_set (build_result xs m (JSObject [] None)) ''undefined'' (map_of m JUndefined)"
    by (simp add: build_result_snoc Map_get_def)
  then have look: "map_of (own r) ''undefined'' = Some (map_of m JUndefined)"
    by (simp add: own_obj_set update_conv')
  moreover from b u have
    "map_of m JUndefined = Some (filter (\<lambda>y. to_function sel y = JUndefined) objs)"
    by blast
  ultimately have
    "obj_get r ''undefined'' = Some (filter (\<lambda>y. to_function sel y = JUndefined) objs)"
    by (simp add: obj_get_def)
  moreover have "''undefined'' \<in> set (Object_keys r)"
    using look by (auto simp: set_Object_keys dest: map_of_SomeD intro: rev_image_eqI)
  ultimately show ?thesis using gr assms(1) ux by auto
qed









text \<open>
  Where no two keys have the same string, every record is in exactly one group of the
  result. This is the case the documentation of \<open>groupBy\<close> describes.
\<close>

lemma mset_filter_disj:
  "\<forall>x\<in>set xs. \<not> (P x \<and> Q x) \<Longrightarrow>
     mset (filter P xs) + mset (filter Q xs) = mset (filter (\<lambda>x. P x \<or> Q x) xs)"
  by (induction xs) auto

lemma sum_buckets:
  "distinct ks \<Longrightarrow>
     (\<Sum>k\<leftarrow>ks. mset (filter (\<lambda>x. p x = k) xs)) = mset (filter (\<lambda>x. p x \<in> set ks) xs)"
proof (induction ks)
  case Nil
  show ?case by simp
next
  case (Cons k ks)
  then have "\<forall>x\<in>set xs. \<not> (p x = k \<and> p x \<in> set ks)" by auto
  from mset_filter_disj [OF this] Cons show ?case by simp
qed

lemma sum_list_perm:
  fixes F :: "'a \<Rightarrow> 'b multiset"
  assumes "mset xs = mset ys"
  shows "sum_list (map F xs) = sum_list (map F ys)"
proof -
  have "mset (map F xs) = mset (map F ys)" using assms by simp
  then have "sum_mset (mset (map F xs)) = sum_mset (mset (map F ys))" by (rule arg_cong)
  then show ?thesis by (simp only: sum_mset_sum_list)
qed

lemma mset_groups:
  "mset (concat (groups ob)) =
     (\<Sum>s\<leftarrow>Object_keys ob. case obj_get ob s of None \<Rightarrow> {#} | Some g \<Rightarrow> mset g)"
proof -
  have "mset (concat (concat (map (\<lambda>k. case obj_get ob k of None \<Rightarrow> [] | Some g \<Rightarrow> [g]) ks))) =
          (\<Sum>s\<leftarrow>ks. case obj_get ob s of None \<Rightarrow> {#} | Some g \<Rightarrow> mset g)" for ks
    by (induction ks) (auto split: option.splits)
  then show ?thesis by (simp add: groups_def)
qed

lemma filter_key_single:
  assumes "distinct ks" and "k \<in> set ks" and "inj_on f (set ks)"
  shows "filter (\<lambda>j. f j = f k) ks = [k]"
proof -
  have "filter (\<lambda>j. f j = f k) ks = filter (\<lambda>j. j = k) ks"
    using assms(2,3) by (intro filter_cong) (auto dest: inj_onD)
  also have "\<dots> = [k]"
    using assms(1,2) by (induction ks) (auto simp: filter_empty_conv)
  finally show ?thesis .
qed

lemma groupBy_partition:
  assumes "groupBy objs sel = Inr r" and "inj_on ToString (to_function sel ` set objs)"
    and "''__proto__'' \<notin> ToString ` to_function sel ` set objs"
  shows "mset (concat (groups r)) = mset objs"
proof -
  let ?p = "to_function sel"
  from groupBy_facts [OF assms(1)] obtain m where
    r: "r = build_result (Array_sort (map fst m)) m (JSObject [] None)"
    and d: "distinct (map fst m)"
    and ks: "fst ` set m = ?p ` set objs"
    and b: "\<forall>k\<in>fst ` set m. map_of m k = Some (filter (\<lambda>x. ?p x = k) objs)"
    by blast
  let ?K = "Array_sort (map fst m)"
  have dK: "distinct ?K" using d by (rule distinct_Array_sort)
  have sK: "set ?K = ?p ` set objs" using ks by (simp add: set_Array_sort)
  have inj: "inj_on ToString (set ?K)" using assms(2) sK by simp
  have "distinct (map ToString ?K)" using dK inj by (simp add: distinct_map)
  moreover have pn: "''__proto__'' \<notin> set (map ToString ?K)"
    using assms(3) unfolding set_map sK .
  then have np: "filter (\<lambda>s. s \<noteq> ''__proto__'') (map ToString ?K) = map ToString ?K"
    unfolding filter_id_conv by blast
  ultimately have keys: "map fst (own r) = map ToString ?K"
    by (simp add: r build_result_keys fold_add_key_distinct_inj)
  have look: "obj_get r (ToString k) = Some (filter (\<lambda>x. ?p x = k) objs)" if "k \<in> set ?K" for k
  proof -
    have "ToString k \<in> set (map ToString ?K)" using that by simp
    with pn have "ToString k \<noteq> ''__proto__''" by metis
    then have "map_of (own r) (ToString k) = Some (map_of m k)"
      using that by (simp add: r build_result_lookup filter_key_single [OF dK that inj])
    moreover have "k \<in> fst ` set m" using that by (simp add: set_Array_sort)
    with b have "map_of m k = Some (filter (\<lambda>x. ?p x = k) objs)"
      by blast
    ultimately show ?thesis by (simp add: obj_get_def)
  qed
  let ?F = "\<lambda>s. case obj_get r s of None \<Rightarrow> {#} | Some g \<Rightarrow> mset g"
  have "mset (Object_keys r) = mset (map ToString ?K)"
    by (simp only: mset_Object_keys keys)
  then have perm: "sum_list (map ?F (Object_keys r)) = sum_list (map ?F (map ToString ?K))"
    by (rule sum_list_perm)
  have "map ?F (map ToString ?K) = map (\<lambda>k. mset (filter (\<lambda>x. ?p x = k) objs)) ?K"
    by (simp add: look)
  then have "mset (concat (groups r)) = (\<Sum>k\<leftarrow>?K. mset (filter (\<lambda>x. ?p x = k) objs))"
    by (simp only: mset_groups perm)
  also have "\<dots> = mset (filter (\<lambda>x. ?p x \<in> set ?K) objs)"
    using dK by (rule sum_buckets)
  also have "\<dots> = mset objs"
    by (simp add: sK)
  finally show ?thesis .
qed

section \<open>groupBy leaves the heap it was given as it was\<close>

lemma deref_append: "a < length h \<Longrightarrow> deref (h @ xs) a = deref h a"
  by (simp add: deref_def nth_append)

lemma deref_store:
  "deref (store h a c) b = (if b = a \<and> a < length h then Some c else deref h b)"
  by (simp add: deref_def store_def)

lemma take_store: "n \<le> a \<Longrightarrow> take n (store h a c) = take n h"
  by (simp add: store_def)

lemma is_record_at_iff: "is_record_at h a \<longleftrightarrow> a < length h \<and> (\<exists>x. h ! a = RecordCell x)"
  by (auto simp: is_record_at_def deref_def split: cell.splits)

lemma is_array_at_iff: "is_array_at h a \<longleftrightarrow> a < length h \<and> (\<exists>xs. h ! a = ArrayCell xs)"
  by (auto simp: is_array_at_def deref_def split: cell.splits)

lemma is_array_at_store:
  "is_array_at h b \<Longrightarrow> is_array_at (store h a (ArrayCell xs)) b"
  by (cases "b = a") (auto simp: is_array_at_iff store_def)

lemma is_array_at_append: "is_array_at h b \<Longrightarrow> is_array_at (h @ cs) b"
  by (auto simp: is_array_at_iff nth_append)

lemma fresh_buckets_store:
  "fresh_buckets n m h \<Longrightarrow> fresh_buckets n m (store h a (ArrayCell xs))"
  by (auto simp: fresh_buckets_def intro: is_array_at_store)

lemma fresh_buckets_alloc:
  assumes "fresh_buckets n m h" and "n \<le> length h"
  shows "fresh_buckets n (Map_set m k (length h)) (h @ [ArrayCell []])"
proof -
  have "n \<le> b \<and> is_array_at (h @ [ArrayCell []]) b"
    if "(j, b) \<in> set (AList.update k (length h) m)" for j b
  proof (cases "(j, b) \<in> set m")
    case True
    with assms(1) show ?thesis
      by (auto simp: fresh_buckets_def intro: is_array_at_append)
  next
    case False
    with update_entry [OF that] have "b = length h" by simp
    with assms(2) show ?thesis by (simp add: is_array_at_iff)
  qed
  then show ?thesis by (auto simp: fresh_buckets_def Map_set_def)
qed

lemma group_loop_heap_frame:
  assumes "n \<le> length h" and "fresh_buckets n m h"
    and "\<forall>r\<in>set refs. r < n \<and> (\<exists>x. h ! r = RecordCell x)"
  shows "\<exists>m' h'. group_loop_heap p refs m h = Some (Inr (m', h')) \<and>
           take n h' = take n h \<and> n \<le> length h' \<and> fresh_buckets n m' h'"
  using assms
proof (induction refs arbitrary: m h)
  case Nil
  then show ?case by simp
next
  case (Cons r refs)
  from Cons.prems obtain x where rn: "r < n" and x: "h ! r = RecordCell x" by auto
  with Cons.prems(1) have dr: "deref h r = Some (RecordCell x)" by (simp add: deref_def)
  let ?k = "p x"
  have step: "\<exists>m1 h1. group_loop_heap p (r # refs) m h = group_loop_heap p refs m1 h1 \<and>
                 take n h1 = take n h \<and> n \<le> length h1 \<and> fresh_buckets n m1 h1"
  proof (cases "Map_has m ?k")
    case True
    then obtain b where b: "map_of m ?k = Some b"
      by (metis Map_has_def map_of_eq_None_iff not_Some_eq)
    then have "(?k, b) \<in> set m" by (rule map_of_SomeD)
    with Cons.prems(2) obtain xs where nb: "n \<le> b" and db: "deref h b = Some (ArrayCell xs)"
      by (fastforce simp: fresh_buckets_def is_array_at_iff deref_def)
    let ?h1 = "store h b (ArrayCell (xs @ [r]))"
    have "group_loop_heap p (r # refs) m h = group_loop_heap p refs m ?h1"
      using dr True b db by (simp add: Map_get_def)
    moreover have "take n ?h1 = take n h" using nb by (rule take_store)
    moreover have "n \<le> length ?h1" using Cons.prems(1) by (simp add: store_def)
    moreover have "fresh_buckets n m ?h1" using Cons.prems(2) by (rule fresh_buckets_store)
    ultimately show ?thesis by blast
  next
    case False
    let ?m1 = "Map_set m ?k (length h)"
    let ?h1 = "store (h @ [ArrayCell []]) (length h) (ArrayCell ([] @ [r]))"
    have "group_loop_heap p (r # refs) m h = group_loop_heap p refs ?m1 ?h1"
      using dr False
      by (simp add: alloc_def Map_get_def Map_set_def update_conv' deref_def)
    moreover have "take n ?h1 = take n h" using Cons.prems(1) by (simp add: take_store)
    moreover have "n \<le> length ?h1" using Cons.prems(1) by (simp add: store_def)
    moreover have "fresh_buckets n ?m1 ?h1"
      by (intro fresh_buckets_store fresh_buckets_alloc Cons.prems)
    ultimately show ?thesis by blast
  qed
  then obtain m1 h1 where
    eq: "group_loop_heap p (r # refs) m h = group_loop_heap p refs m1 h1"
    and tk: "take n h1 = take n h" and len: "n \<le> length h1" and fr: "fresh_buckets n m1 h1"
    by blast
  have "\<forall>r\<in>set refs. r < n \<and> (\<exists>x. h1 ! r = RecordCell x)"
  proof
    fix q assume q: "q \<in> set refs"
    with Cons.prems(3) have "q < n" and "\<exists>x. h ! q = RecordCell x" by auto
    moreover from \<open>q < n\<close> have "h1 ! q = take n h1 ! q" by simp
    ultimately show "q < n \<and> (\<exists>x. h1 ! q = RecordCell x)" by (simp add: tk)
  qed
  from Cons.IH [OF len fr this] eq tk show ?case by auto
qed

lemma build_result_heap_frame:
  assumes "deref h res = Some (ObjectCell ps)" and "n \<le> res"
  shows "\<exists>h' ps'. build_result_heap ks m res h = Some h' \<and> take n h' = take n h \<and>
           length h' = length h \<and> deref h' res = Some (ObjectCell ps')"
  using assms
proof (induction ks arbitrary: h ps)
  case Nil
  then show ?case by simp
next
  case (Cons k ks)
  let ?ps = "obj_set ps (ToString k) (Map_get m k)"
  let ?h1 = "store h res (ObjectCell ?ps)"
  from Cons.prems(1) have "res < length h" by (simp add: deref_def split: if_splits)
  then have "deref ?h1 res = Some (ObjectCell ?ps)" by (simp add: deref_store)
  from Cons.IH [OF this Cons.prems(2)] obtain h' ps' where
    "build_result_heap ks m res ?h1 = Some h'" "take n h' = take n ?h1"
    "length h' = length ?h1" "deref h' res = Some (ObjectCell ps')" by blast
  with Cons.prems show ?case by (simp add: take_store store_def)
qed

text \<open>
  C5: called on an array of records, \<open>groupBy\<close> returns, and every cell the heap held
  before the call (the array, the records and anything else) is the same after it; the
  result is a cell allocated by the call.
\<close>

theorem groupBy_heap_input_unchanged:
  assumes "record_array h objects refs"
  shows "\<exists>h' result. groupBy_heap h objects property = Some (Inr (h', result)) \<and>
           take (length h) h' = h \<and> length h \<le> result \<and> result < length h'"
proof -
  from assms have arr: "deref h objects = Some (ArrayCell refs)"
    and recs: "\<forall>r\<in>set refs. r < length h \<and> (\<exists>x. h ! r = RecordCell x)"
    by (auto simp: record_array_def is_record_at_iff)
  have "fresh_buckets (length h) [] h" by (simp add: fresh_buckets_def)
  from group_loop_heap_frame [OF order_refl this recs, of "to_function property"]
  obtain m h1 where
    loop: "group_loop_heap (to_function property) refs [] h = Some (Inr (m, h1))"
    and tk1: "take (length h) h1 = take (length h) h" and len1: "length h \<le> length h1"
    by blast
  let ?h2 = "h1 @ [ObjectCell (JSObject [] None)]"
  have "deref ?h2 (length h1) = Some (ObjectCell (JSObject [] None))" by (simp add: deref_def)
  from build_result_heap_frame [OF this len1, of "Array_sort (Map_keys m)" m]
  obtain h3 where
    build: "build_result_heap (Array_sort (Map_keys m)) m (length h1) ?h2 = Some h3"
    and tk3: "take (length h) h3 = take (length h) ?h2" and len3: "length h3 = length ?h2"
    by blast
  have "groupBy_heap h objects property = Some (Inr (h3, length h1))"
    using arr loop build by (simp add: groupBy_heap_def alloc_def)
  moreover have "take (length h) h3 = h" using tk3 tk1 len1 by simp
  moreover have "length h1 < length h3" using len3 by simp
  ultimately show ?thesis using len1 by blast
qed

subsection \<open>The heap run and the run on values\<close>

lemma update_absent: "k \<notin> fst ` set al \<Longrightarrow> AList.update k v al = al @ [(k, v)]"
  by (induction al) auto

lemma record_at_store_array:
  "is_array_at h b \<Longrightarrow> record_at (store h b (ArrayCell ys)) = record_at h"
  by (rule ext) (auto simp: record_at_def store_def is_array_at_iff deref_def nth_list_update)

lemma record_at_alloc_array: "record_at (h @ [ArrayCell ys]) = record_at h"
  by (rule ext) (auto simp: record_at_def deref_def nth_append)

lemma elements_at_store:
  "elements_at (store h b (ArrayCell ys)) a =
     (if a = b \<and> b < length h then ys else elements_at h a)"
  by (simp add: elements_at_def deref_store)

lemma read_map_update_present:
  assumes "distinct (map snd m)" and "(k, b) \<in> set m" and "distinct (map fst m)"
  shows "map (\<lambda>(j, c). (j, if c = b then v else f c)) m =
           AList.update k v (map (\<lambda>(j, c). (j, f c)) m)"
  using assms
proof (induction m)
  case Nil
  then show ?case by simp
next
  case (Cons e m)
  obtain j c where e: "e = (j, c)" by (cases e)
  show ?case
  proof (cases "j = k")
    case True
    with Cons.prems e have cb: "c = b" by (auto simp: image_iff) 
    have "map (\<lambda>(j, c). (j, if c = b then v else f c)) m = map (\<lambda>(j, c). (j, f c)) m"
      using Cons.prems(1) e cb by (intro map_cong) (auto simp: image_iff)
    with True e cb show ?thesis by simp
  next
    case False
    with Cons.prems e have in_m: "(k, b) \<in> set m" by auto
    with Cons.prems(1) e have "c \<noteq> b" by (auto simp: image_iff)
    moreover from Cons.IH [OF _ in_m] Cons.prems have
      "map (\<lambda>(j, c). (j, if c = b then v else f c)) m =
         AList.update k v (map (\<lambda>(j, c). (j, f c)) m)" by simp
    ultimately show ?thesis using False e by simp
  qed
qed

lemma is_record_at_store:
  "is_array_at h b \<Longrightarrow> is_record_at (store h b (ArrayCell ys)) r = is_record_at h r"
  by (cases "r = b") (auto simp: is_record_at_iff is_array_at_iff store_def)

lemma is_record_at_alloc: "is_record_at h r \<Longrightarrow> is_record_at (h @ [c]) r"
  by (auto simp: is_record_at_iff nth_append)

lemma read_bucket_store:
  "is_array_at h b \<Longrightarrow>
     read_bucket (store h b (ArrayCell ys)) c =
       (if c = b then map (record_at h) ys else read_bucket h c)"
  by (simp add: read_bucket_def record_at_store_array elements_at_store is_array_at_iff)

lemma read_bucket_alloc:
  "c < length h \<Longrightarrow> read_bucket (h @ [ArrayCell ys]) c = read_bucket h c"
  by (simp add: read_bucket_def record_at_alloc_array elements_at_def deref_def nth_append)

lemma map_of_read_map: "map_of (read_map h m) k = map_option (read_bucket h) (map_of m k)"
  by (induction m) (auto simp: read_map_def)

lemma keys_read_map: "map fst (read_map h m) = map fst m"
  by (induction m) (auto simp: read_map_def)

lemma read_map_cong:
  "\<forall>(k, b)\<in>set m. read_bucket h' b = read_bucket h b \<Longrightarrow> read_map h' m = read_map h m"
  by (induction m) (auto simp: read_map_def)

lemma group_loop_heap_step:
  assumes rec: "is_record_at h r" and fr: "fresh_buckets n m h" and len: "n \<le> length h"
    and dk: "distinct (map fst m)" and dv: "distinct (map snd m)"
  shows "\<exists>m1 h1. group_loop_heap p (r # refs) m h = group_loop_heap p refs m1 h1 \<and>
           fresh_buckets n m1 h1 \<and> distinct (map fst m1) \<and> distinct (map snd m1) \<and>
           record_at h1 = record_at h \<and> (\<forall>q. is_record_at h q \<longrightarrow> is_record_at h1 q) \<and>
           read_map h1 m1 =
             AList.update (p (record_at h r))
               (bucket_of (read_map h m) (p (record_at h r)) @ [record_at h r]) (read_map h m)"
proof -
  from rec obtain x where dr: "deref h r = Some (RecordCell x)"
    by (auto simp: is_record_at_def split: option.splits cell.splits)
  then have x: "record_at h r = x" by (simp add: record_at_def)
  let ?k = "p x"
  show ?thesis
  proof (cases "Map_has m ?k")
    case True
    then obtain b where b: "map_of m ?k = Some b"
      by (metis Map_has_def map_of_eq_None_iff not_Some_eq)
    then have kb: "(?k, b) \<in> set m" by (rule map_of_SomeD)
    with fr have ab: "is_array_at h b" by (auto simp: fresh_buckets_def)
    then obtain xs where db: "deref h b = Some (ArrayCell xs)"
      by (auto simp: is_array_at_def split: option.splits cell.splits)
    then have el: "elements_at h b = xs" by (simp add: elements_at_def)
    let ?h1 = "store h b (ArrayCell (xs @ [r]))"
    have a1: "group_loop_heap p (r # refs) m h = group_loop_heap p refs m ?h1"
      using dr True b db by (simp add: Map_get_def)
    have a2: "fresh_buckets n m ?h1"
      using fr by (rule fresh_buckets_store)
    have a3: "record_at ?h1 = record_at h" using ab by (rule record_at_store_array)
    have a4: "\<forall>q. is_record_at h q \<longrightarrow> is_record_at ?h1 q"
      using ab by (simp add: is_record_at_store)
    have a5: "read_map ?h1 m =
        AList.update ?k (bucket_of (read_map h m) ?k @ [x]) (read_map h m)"
    proof -
      have "bucket_of (read_map h m) ?k = read_bucket h b"
        by (simp add: bucket_of_def map_of_read_map b)
      moreover have "read_bucket h b @ [x] = map (record_at h) (xs @ [r])"
        by (simp add: read_bucket_def el x)
      moreover have "read_map ?h1 m =
          map (\<lambda>(j, c). (j, if c = b then map (record_at h) (xs @ [r]) else read_bucket h c)) m"
        by (simp add: read_map_def read_bucket_store [OF ab])
      ultimately show ?thesis
        using read_map_update_present [OF dv kb dk, of "map (record_at h) (xs @ [r])" "read_bucket h"]
        by (simp add: read_map_def)
    qed
    show ?thesis
      unfolding x
      apply (rule exI [of _ m], rule exI [of _ ?h1])
      using a1 a2 dk dv a3 a4 a5 by simp
  next
    case False
    then have nk: "?k \<notin> fst ` set m" by (simp add: Map_has_def)
    let ?m1 = "m @ [(?k, length h)]"
    let ?h1 = "h @ [ArrayCell [r]]"
    have m1: "Map_set m ?k (length h) = ?m1"
      using nk by (simp add: Map_set_def update_absent)
    have h1: "store (h @ [ArrayCell []]) (length h) (ArrayCell ([] @ [r])) = ?h1"
      by (simp add: store_def)
    have lt: "c < length h" if "(j, c) \<in> set m" for j c
      using fr that by (auto simp: fresh_buckets_def is_array_at_iff)
    have g: "Map_get (Map_set m ?k (length h)) ?k = Some (length h)"
      by (simp add: Map_get_def Map_set_def update_conv')
    have d: "deref (h @ [ArrayCell []]) (length h) = Some (ArrayCell [])"
      by (simp add: deref_def)
    have "group_loop_heap p (r # refs) m h =
            group_loop_heap p refs (Map_set m ?k (length h))
              (store (h @ [ArrayCell []]) (length h) (ArrayCell ([] @ [r])))"
      using dr False g d by (simp add: alloc_def)
    then have a1: "group_loop_heap p (r # refs) m h = group_loop_heap p refs ?m1 ?h1"
      by (simp only: m1 h1)
    have a2: "fresh_buckets n ?m1 ?h1"
      using fresh_buckets_store [OF fresh_buckets_alloc [OF fr len], of ?k "length h" "[] @ [r]"]
      by (simp only: m1 h1)
    have d1: "distinct (map fst ?m1)" using dk nk by simp
    have d2: "distinct (map snd ?m1)" using dv lt by force
    have a3: "record_at ?h1 = record_at h" by (rule record_at_alloc_array)
    have a4: "\<forall>q. is_record_at h q \<longrightarrow> is_record_at ?h1 q"
      by (simp add: is_record_at_alloc)
    have a5: "read_map ?h1 ?m1 =
        AList.update ?k (bucket_of (read_map h m) ?k @ [x]) (read_map h m)"
    proof -
      have "read_map ?h1 m = read_map h m"
        by (rule read_map_cong) (auto simp: read_bucket_alloc dest: lt)
      moreover have "read_bucket ?h1 (length h) = [x]"
        using x by (simp add: read_bucket_def elements_at_def deref_def record_at_alloc_array)
      moreover have "bucket_of (read_map h m) ?k = []"
        using nk by (simp add: bucket_of_def map_of_read_map map_of_eq_None_iff [THEN iffD2])
      moreover have "?k \<notin> fst ` set (read_map h m)"
        using nk keys_read_map [of h m] by (metis set_map)
      ultimately show ?thesis
        by (simp add: update_absent) (simp add: read_map_def)
    qed
    show ?thesis
      unfolding x
      apply (rule exI [of _ ?m1], rule exI [of _ ?h1])
      using a1 a2 d1 d2 a3 a4 a5 by simp
  qed
qed

lemma group_loop_heap_refines:
  assumes "\<forall>r\<in>set refs. is_record_at h r" and "fresh_buckets 0 m h"
    and "distinct (map fst m)" and "distinct (map snd m)"
  shows "\<exists>m' h'. group_loop_heap p refs m h = Some (Inr (m', h')) \<and>
           fresh_buckets 0 m' h' \<and> record_at h' = record_at h \<and>
           group_loop p (map (record_at h) refs) (read_map h m) = Inr (read_map h' m')"
  using assms
proof (induction refs arbitrary: m h)
  case Nil
  then show ?case by simp
next
  case (Cons r refs)
  from Cons.prems(1) have "is_record_at h r" by simp
  from group_loop_heap_step [OF this Cons.prems(2) _ Cons.prems(3,4), of p refs]
  obtain m1 h1 where
    eq: "group_loop_heap p (r # refs) m h = group_loop_heap p refs m1 h1"
    and fr: "fresh_buckets 0 m1 h1"
    and dk: "distinct (map fst m1)" and dv: "distinct (map snd m1)"
    and ra: "record_at h1 = record_at h"
    and recs: "\<forall>q. is_record_at h q \<longrightarrow> is_record_at h1 q"
    and rm: "read_map h1 m1 =
               AList.update (p (record_at h r))
                 (bucket_of (read_map h m) (p (record_at h r)) @ [record_at h r]) (read_map h m)"
    by auto
  from recs Cons.prems(1) have "\<forall>q\<in>set refs. is_record_at h1 q" by simp
  from Cons.IH [OF this fr dk dv] obtain m' h' where
    run: "group_loop_heap p refs m1 h1 = Some (Inr (m', h'))"
    and fr': "fresh_buckets 0 m' h'" and ra': "record_at h' = record_at h1"
    and pure: "group_loop p (map (record_at h1) refs) (read_map h1 m1) = Inr (read_map h' m')"
    by blast
  have "group_loop p (map (record_at h) (r # refs)) (read_map h m) =
          group_loop p (map (record_at h1) refs) (read_map h1 m1)"
    by (simp add: group_loop_step rm ra del: group_loop.simps)
  with eq run fr' ra' ra pure show ?case by simp
qed

lemma build_result_heap_eq:
  "deref h res = Some (ObjectCell ps) \<Longrightarrow>
     build_result_heap ks m res h = Some (store h res (ObjectCell (build_result ks m ps)))"
proof (induction ks arbitrary: h ps)
  case Nil
  then have "res < length h" "h ! res = ObjectCell ps"
    by (auto simp: deref_def split: if_splits)
  then have "h[res := ObjectCell ps] = h" by (metis list_update_id)
  then show ?case by (simp add: store_def)
next
  case (Cons k ks)
  let ?c = "ObjectCell (obj_set ps (ToString k) (Map_get m k))"
  from Cons.prems have "res < length h" by (auto simp: deref_def split: if_splits)
  then have "deref (store h res ?c) res = Some ?c" by (simp add: deref_store)
  from Cons.IH [OF this] Cons.prems show ?case by (simp add: store_def)
qed

lemma update_map_values:
  "map (\<lambda>(s, v). (s, g v)) (AList.update k v al) =
     AList.update k (g v) (map (\<lambda>(s, v). (s, g v)) al)"
  by (induction al) auto

lemma map_object_obj_set:
  "map_object f (obj_set ob k v) = obj_set (map_object f ob) k (map_option f v)"
  by (cases v) (simp_all add: map_object_def obj_set_def update_map_values)

lemma build_result_map:
  "map_object f (build_result ks m ob) =
     build_result ks (map (\<lambda>(k, b). (k, f b)) m) (map_object f ob)"
proof (induction ks arbitrary: ob)
  case Nil
  show ?case by simp
next
  case (Cons k ks)
  have "map_of (map (\<lambda>(k, b). (k, f b)) m) k = map_option f (map_of m k)"
    by (induction m) auto
  then show ?case
    by (simp add: Cons.IH Map_get_def map_object_obj_set)
qed

text \<open>
  The run on the heap computes what \<open>groupBy\<close> on the records computes: the result
  object, read back from the final heap, is the result of \<open>groupBy\<close> on the records
  the input array refers to.
\<close>

lemma groupBy_heap_refines:
  assumes "record_array h objects refs"
  shows "\<exists>h' result. groupBy_heap h objects property = Some (Inr (h', result)) \<and>
           groupBy (map (record_at h) refs) property = Inr (read_object h' result)"
proof -
  let ?p = "to_function property"
  from assms have arr: "deref h objects = Some (ArrayCell refs)"
    and recs: "\<forall>r\<in>set refs. is_record_at h r"
    by (auto simp: record_array_def)
  have "fresh_buckets 0 [] h" by (simp add: fresh_buckets_def)
  from group_loop_heap_refines [OF recs this, of ?p] obtain m h1 where
    loop: "group_loop_heap ?p refs [] h = Some (Inr (m, h1))"
    and fr: "fresh_buckets 0 m h1"
    and pure: "group_loop ?p (map (record_at h) refs) (read_map h []) = Inr (read_map h1 m)"
    by auto
  let ?K = "Array_sort (Map_keys m)"
  let ?h2 = "h1 @ [ObjectCell (JSObject [] None)]"
  let ?h3 = "store ?h2 (length h1) (ObjectCell (build_result ?K m (JSObject [] None)))"
  have "deref ?h2 (length h1) = Some (ObjectCell (JSObject [] None))" by (simp add: deref_def)
  then have build: "build_result_heap ?K m (length h1) ?h2 = Some ?h3"
    by (rule build_result_heap_eq)
  have run: "groupBy_heap h objects property = Some (Inr (?h3, length h1))"
    using arr loop build by (simp add: groupBy_heap_def alloc_def)
  have h3: "?h3 = h1 @ [ObjectCell (build_result ?K m (JSObject [] None))]"
    by (simp add: store_def)
  have rb: "read_bucket ?h3 b = read_bucket h1 b" if "(k, b) \<in> set m" for k b
  proof -
    from fr that have "b < length h1" by (auto simp: fresh_buckets_def is_array_at_iff)
    moreover have "record_at ?h3 = record_at h1"
      unfolding h3 by (rule ext) (auto simp: record_at_def deref_def nth_append)
    ultimately show ?thesis
      unfolding h3 by (simp add: read_bucket_def elements_at_def deref_def nth_append)
  qed
  have "read_object ?h3 (length h1) =
          map_object (read_bucket ?h3) (build_result ?K m (JSObject [] None))"
    by (simp add: read_object_def deref_def store_def)
  also have "\<dots> = build_result ?K (read_map ?h3 m) (JSObject [] None)"
    by (simp add: build_result_map read_map_def) (simp add: map_object_def)
  also have "read_map ?h3 m = read_map h1 m"
    by (rule read_map_cong) (auto simp: rb)
  finally have ro:
    "read_object ?h3 (length h1) = build_result ?K (read_map h1 m) (JSObject [] None)" .
  have "groupBy (map (record_at h) refs) property =
          Inr (build_result (Array_sort (Map_keys (read_map h1 m))) (read_map h1 m)
                 (JSObject [] None))"
    using pure by (simp add: groupBy_def read_map_def)
  also have "Map_keys (read_map h1 m) = Map_keys m"
    by (simp add: Map_keys_def keys_read_map)
  finally show ?thesis using run ro by simp
qed

section \<open>Requests, handlers and saved words\<close>

text \<open>
  C8: when \<open>fetch\<close> is rejected, or the body fails to parse, the request appends the
  error to the console and changes nothing else of the page; the callback plays no part.
\<close>

theorem datamuseRequest_failure_only_logs:
  assumes "fetch u = Rejected err \<or> (\<exists>resp. fetch u = Fulfilled resp \<and> json resp = Rejected err)"
  shows "datamuseRequest fetch u callback st = st\<lparr>console := console st @ [err]\<rparr>"
  using assms by (auto simp: datamuseRequest_def console_error_def)

lemma datamuseRequest_data:
  "fetch u = Fulfilled (Response (Fulfilled data)) \<Longrightarrow>
     datamuseRequest fetch u callback st = snd (callback data st)"
  by (auto simp: datamuseRequest_def split: prod.splits option.splits)

text \<open>What the handlers leave in the output element when the response is the empty array.\<close>

lemma rhymeHandler_empty:
  assumes "fetch (DatamuseWords ''rel_rhy'' (get_value (wordInput st))) = Fulfilled (Response (Fulfilled []))"
  shows "wordOutput (rhymeHandler fetch st) =
           set_value (set_textContent (wordOutput st) (JStr [])) ''(no results)''"
proof -
  have g: "groupBy [] (Field ''numSyllables'') = Inr (JSObject [] None)"
    by (simp add: groupBy_def Map_keys_def Array_sort_def)
  have req: "datamuseRequest fetch (DatamuseWords ''rel_rhy'' (get_value (wordInput st))) cb s =
               snd (cb [] s)" for cb s
    using assms by (rule datamuseRequest_data)
  show ?thesis
    by (simp add: rhymeHandler_def getDatamuseRhymeUrl_def req rhyme_callback_def g
        Object_keys_def key_order_def Let_def)
qed

lemma synonymHandler_empty:
  assumes "fetch (DatamuseWords ''ml'' (get_value (wordInput st))) = Fulfilled (Response (Fulfilled []))"
  shows "wordOutput (synonymHandler fetch st) =
           set_value (set_textContent (wordOutput st) (JStr [])) ''(no results)''"
proof -
  have req: "datamuseRequest fetch (DatamuseWords ''ml'' (get_value (wordInput st))) cb s =
               snd (cb [] s)" for cb s
    using assms by (rule datamuseRequest_data)
  show ?thesis
    by (simp add: synonymHandler_def getDatamuseSimilarToUrl_def req synonym_callback_def Let_def)
qed

lemma no_results_shown:
  "tag e = ''output'' \<Longrightarrow>
     children (set_value (set_textContent e (JStr [])) ''(no results)'') = [Text ''(no results)'']"
  by (simp add: set_value_def set_textContent_def)

lemma no_results_not_shown:
  "tag e \<noteq> ''output'' \<Longrightarrow>
     children (set_value (set_textContent e (JStr [])) ''(no results)'') = [] \<and>
     get_value (set_value (set_textContent e (JStr [])) ''(no results)'') = ''(no results)''"
  by (simp add: set_value_def set_textContent_def set_prop_def get_value_def update_conv')

text \<open>
  C9: when the response is the empty array and the output area is an \<open>output\<close> element,
  after either handler the output area holds the text \<open>(no results)\<close> and nothing else,
  so no result item.
\<close>

theorem handlers_no_results:
  assumes "tag (wordOutput st) = ''output''"
    and "fetch (DatamuseWords ''rel_rhy'' (get_value (wordInput st))) = Fulfilled (Response (Fulfilled []))"
    and "fetch (DatamuseWords ''ml'' (get_value (wordInput st))) = Fulfilled (Response (Fulfilled []))"
  shows "children (wordOutput (rhymeHandler fetch st)) = [Text ''(no results)''] \<and>
         children (wordOutput (synonymHandler fetch st)) = [Text ''(no results)'']"
proof -
  have "wordOutput (rhymeHandler fetch st) =
          set_value (set_textContent (wordOutput st) (JStr [])) ''(no results)''"
    using assms(2) by (rule rhymeHandler_empty)
  moreover have "wordOutput (synonymHandler fetch st) =
          set_value (set_textContent (wordOutput st) (JStr [])) ''(no results)''"
    using assms(3) by (rule synonymHandler_empty)
  ultimately show ?thesis
    using no_results_shown [OF assms(1)] by simp
qed

text \<open>
  C10: \<open>addToSavedWords\<close> puts the word at the end of \<open>wordList\<close> and leaves the entries
  before it as they were, whether or not the word is among them; the list is one longer
  after each call, and a series of calls appends the words in the order of the calls.
\<close>

theorem addToSavedWords_appends:
  "wordList (addToSavedWords word st) = wordList st @ [word]
   \<and> length (wordList (addToSavedWords word st)) = Suc (length (wordList st))
   \<and> wordList (fold addToSavedWords ws st) = wordList st @ ws"
proof -
  have one: "wordList (addToSavedWords w s) = wordList s @ [w]" for w s
    by (simp add: addToSavedWords_def Let_def)
  have "wordList (fold addToSavedWords ws s) = wordList s @ ws" for s
    by (induction ws arbitrary: s) (simp_all add: one)
  with one show ?thesis by simp
qed

text \<open>Neither handler, however its request settles, touches \<open>wordList\<close>.\<close>

lemma wordList_append_word: "wordList (append_word w st) = wordList st"
  by (simp add: append_word_def)

lemma wordList_append_header: "wordList (append_header n st) = wordList st"
  by (simp add: append_header_def Let_def)

lemma wordList_fold_append_item: "wordList (fold append_item items st) = wordList st"
  by (induction items arbitrary: st) (simp_all add: append_item_def wordList_append_word)

lemma wordList_render_values: "wordList (snd (render_values vs st)) = wordList st"
  by (induction vs arbitrary: st) (simp_all add: wordList_append_word split: sum.splits)

lemma wordList_render_group: "wordList (snd (render_group g st)) = wordList st"
  by (simp add: render_group_def wordList_fold_append_item wordList_render_values
      wordList_append_header wordList_append_word append_item_def
      split: member.splits list.splits sum.splits)

lemma wordList_render_groups: "wordList (snd (render_groups gs st)) = wordList st"
proof (induction gs arbitrary: st)
  case Nil
  show ?case by simp
next
  case (Cons g gs)
  obtain name wordGroup where g: "g = (name, wordGroup)" by (cases g)
  obtain e st' where r: "render_group wordGroup st = (e, st')"
    by (cases "render_group wordGroup st")
  then have "wordList st' = wordList st" using wordList_render_group [of wordGroup st] by simp
  with g r Cons.IH [of st'] show ?case by (cases e) simp_all
qed

lemma wordList_rhyme_callback: "wordList (snd (rhyme_callback d st)) = wordList st"
  by (simp add: rhyme_callback_def wordList_render_groups Let_def split: sum.splits)

lemma wordList_synonym_callback: "wordList (snd (synonym_callback d st)) = wordList st"
  by (simp add: synonym_callback_def wordList_fold_append_item)

lemma wordList_datamuseRequest:
  assumes "\<And>d s. wordList (snd (callback d s)) = wordList s"
  shows "wordList (datamuseRequest fetch u callback st) = wordList st"
proof (cases "fetch u")
  case (Fulfilled resp)
  show ?thesis
  proof (cases "json resp")
    case (Fulfilled d)
    obtain e st' where c: "callback d st = (e, st')" by (cases "callback d st")
    with assms [of d st] have "wordList st' = wordList st" by simp
    with c \<open>fetch u = Fulfilled resp\<close> Fulfilled show ?thesis
      by (cases e) (simp_all add: datamuseRequest_def)
  next
    case (Rejected err)
    with \<open>fetch u = Fulfilled resp\<close> show ?thesis
      by (simp add: datamuseRequest_def console_error_def)
  qed
next
  case (Rejected err)
  then show ?thesis by (simp add: datamuseRequest_def console_error_def)
qed

lemma wordList_handlers:
  "wordList (rhymeHandler fetch st) = wordList st"
  "wordList (synonymHandler fetch st) = wordList st"
  by (simp_all add: rhymeHandler_def synonymHandler_def Let_def
      wordList_datamuseRequest wordList_rhyme_callback wordList_synonym_callback)

section \<open>Concrete inputs\<close>

lemmas groupBy_eval =
  groupBy_def Map_has_def Map_set_def Map_get_def Map_keys_def Array_sort_def obj_set_def
  obj_get_def get_prop_def Number_toString_def nat_to_string.simps digit_char_def Let_def
  Object_prototype_names_def Function_toString_def

lemmas Object_keys_eval =
  Object_keys_def key_order_def is_array_index_def array_index_def index_value_def
  digit_value_def nat_to_string.simps digit_char_def groups_def obj_get_def Let_def

text \<open>
  C1: every record of the input should be in exactly one group of the result. It is not
  so when two keys have the same string: for \<open>[{t: 1}, {t: '1'}]\<close> grouped by \<open>t\<close> the
  map holds the two keys \<open>1\<close> and \<open>'1'\<close>, the result the single property \<open>1\<close>, whose
  second assignment replaces the first, and the record \<open>{t: 1}\<close> is in no group.
\<close>

theorem groupBy_loses_colliding_key:
  "groupBy [[(''t'', JNum 1)], [(''t'', JStr ''1'')]] (Field ''t'') =
     Inr (JSObject [(''1'', Some [[(''t'', JStr ''1'')]])] None) \<and>
   groups (JSObject [(''1'', Some [[(''t'', JStr ''1'')]])] None) = [[[(''t'', JStr ''1'')]]] \<and>
   mset (concat (groups (JSObject [(''1'', Some [[(''t'', JStr ''1'')]])] None))) \<noteq>
     mset [[(''t'', JNum 1)], [(''t'', JStr ''1'')]]"
proof -
  have "groupBy [[(''t'', JNum 1)], [(''t'', JStr ''1'')]] (Field ''t'') =
          Inr (JSObject [(''1'', Some [[(''t'', JStr ''1'')]])] None)"
    by (simp add: groupBy_eval)
  moreover have g:
    "groups (JSObject [(''1'', Some [[(''t'', JStr ''1'')]])] None) = [[[(''t'', JStr ''1'')]]]"
    by (simp add: Object_keys_eval)
  moreover have "mset (concat (groups (JSObject [(''1'', Some [[(''t'', JStr ''1'')]])] None))) \<noteq>
     mset [[(''t'', JNum 1)], [(''t'', JStr ''1'')]]"
    by (simp add: g)
  ultimately show ?thesis by simp
qed

text \<open>
  A record whose key is the string \<open>__proto__\<close> is lost in another way: the assignment
  makes its bucket the prototype of the result and creates no key.
\<close>

lemma groupBy_proto_key:
  "groupBy [[(''t'', JStr ''__proto__'')]] (Field ''t'') =
     Inr (JSObject [] (Some [[(''t'', JStr ''__proto__'')]]))"
  by (simp add: groupBy_eval)


text \<open>
  C6 as stated fails for a field name that plain objects inherit: the record \<open>{a: 1}\<close>
  does not own \<open>constructor\<close>, yet reading it gives the function \<open>Object\<close>, and the
  group is keyed by the text of that function, not by \<open>undefined\<close>.
\<close>

theorem groupBy_missing_field_counterexample:
  "map_of [(''a'', JNum 1)] ''constructor'' = None \<and>
   groupBy [[(''a'', JNum 1)]] (Field ''constructor'') =
     Inr (JSObject [(''function Object() { [native code] }'', Some [[(''a'', JNum 1)]])] None) \<and>
   obj_get (JSObject [(''function Object() { [native code] }'', Some [[(''a'', JNum 1)]])] None)
     ''undefined'' = None \<and>
   ''undefined'' \<notin>
     set (Object_keys
       (JSObject [(''function Object() { [native code] }'', Some [[(''a'', JNum 1)]])] None))"
proof -
  have "groupBy [[(''a'', JNum 1)]] (Field ''constructor'') =
     Inr (JSObject [(''function Object() { [native code] }'', Some [[(''a'', JNum 1)]])] None)"
    by (simp add: groupBy_eval)
  moreover have
    "''undefined'' \<notin>
       set (Object_keys
         (JSObject [(''function Object() { [native code] }'', Some [[(''a'', JNum 1)]])] None))"
    by (simp add: set_Object_keys)
  ultimately show ?thesis by (simp add: obj_get_def)
qed


theorem groupBy_stable_witness:
  "groupBy [[(''t'', JStr ''b''), (''i'', JNum 1)], [(''t'', JStr ''a'')], [(''t'', JStr ''b''), (''i'', JNum 2)]]
     (Field ''t'') =
     Inr (JSObject [(''a'', Some [[(''t'', JStr ''a'')]]),
          (''b'', Some [[(''t'', JStr ''b''), (''i'', JNum 1)], [(''t'', JStr ''b''), (''i'', JNum 2)]])]
          None) \<and>
   [[(''t'', JStr ''b''), (''i'', JNum 1)], [(''t'', JStr ''b''), (''i'', JNum 2)]] \<in>
     set (groups (JSObject [(''a'', Some [[(''t'', JStr ''a'')]]),
          (''b'', Some [[(''t'', JStr ''b''), (''i'', JNum 1)], [(''t'', JStr ''b''), (''i'', JNum 2)]])]
          None)) \<and>
   subseq [[(''t'', JStr ''b''), (''i'', JNum 1)], [(''t'', JStr ''b''), (''i'', JNum 2)]]
     [[(''t'', JStr ''b''), (''i'', JNum 1)], [(''t'', JStr ''a'')], [(''t'', JStr ''b''), (''i'', JNum 2)]]"
proof -
  let ?objs = "[[(''t'', JStr ''b''), (''i'', JNum 1)], [(''t'', JStr ''a'')], [(''t'', JStr ''b''), (''i'', JNum 2)]]"
  let ?r = "JSObject [(''a'', Some [[(''t'', JStr ''a'')]]),
          (''b'', Some [[(''t'', JStr ''b''), (''i'', JNum 1)], [(''t'', JStr ''b''), (''i'', JNum 2)]])]
          None"
  let ?g = "[[(''t'', JStr ''b''), (''i'', JNum 1)], [(''t'', JStr ''b''), (''i'', JNum 2)]]"
  have h1: "groupBy ?objs (Field ''t'') = Inr ?r"
    by (simp add: groupBy_eval)
  have h2: "?g \<in> set (groups ?r)"
    by (simp add: Object_keys_eval)
  from groupBy_stable [OF h1 h2] have "subseq ?g ?objs" by (rule conjunct1)
  with h1 h2 show ?thesis by (simp only: simp_thms)
qed

theorem groupBy_function_as_field_witness:
  "groupBy [[(''n'', JNum 1), (''odd'', JBool True)], [(''n'', JNum 2), (''odd'', JBool False)],
            [(''n'', JNum 3), (''odd'', JBool True)]] (Field ''odd'') =
   groupBy [[(''n'', JNum 1), (''odd'', JBool True)], [(''n'', JNum 2), (''odd'', JBool False)],
            [(''n'', JNum 3), (''odd'', JBool True)]]
     (Fun (\<lambda>x. case get_prop x ''n'' of JNum i \<Rightarrow> JBool (odd (sint i)) | _ \<Rightarrow> JUndefined))"
proof -
  let ?objs = "[[(''n'', JNum 1), (''odd'', JBool True)], [(''n'', JNum 2), (''odd'', JBool False)],
              [(''n'', JNum 3), (''odd'', JBool True)]]"
  let ?f = "\<lambda>x. case get_prop x ''n'' of JNum i \<Rightarrow> JBool (odd (sint i)) | _ \<Rightarrow> JUndefined"
  have h: "\<forall>x\<in>set ?objs. get_prop x ''odd'' = ?f x"
    by (simp add: get_prop_def)
  from groupBy_function_as_field [OF h] show ?thesis .
qed

theorem groupBy_heap_input_unchanged_witness:
  "(\<exists>h' result.
      groupBy_heap [RecordCell [(''t'', JStr ''b'')], RecordCell [(''t'', JStr ''a'')], ArrayCell [0, 1]]
        2 (Field ''t'') = Some (Inr (h', result)) \<and>
      take (length [RecordCell [(''t'', JStr ''b'')], RecordCell [(''t'', JStr ''a'')], ArrayCell [0, 1]]) h' =
        [RecordCell [(''t'', JStr ''b'')], RecordCell [(''t'', JStr ''a'')], ArrayCell [0, 1]] \<and>
      length [RecordCell [(''t'', JStr ''b'')], RecordCell [(''t'', JStr ''a'')], ArrayCell [0, 1]] \<le> result \<and>
      result < length h')"
proof -
  let ?h = "[RecordCell [(''t'', JStr ''b'')], RecordCell [(''t'', JStr ''a'')], ArrayCell [0, 1]]"
  have h: "record_array ?h 2 [0, 1]"
    by (simp add: record_array_def is_record_at_def deref_def)
  from groupBy_heap_input_unchanged [OF h, of "Field ''t''"] show ?thesis .
qed

theorem groupBy_undefined_group_witness:
  "[(''s'', JNum 7)] \<in> set [[(''t'', JStr ''a'')], [(''s'', JNum 7)]] \<and>
   map_of [(''s'', JNum 7)] ''t'' = None \<and>
   (\<exists>r. groupBy [[(''t'', JStr ''a'')], [(''s'', JNum 7)]] (Field ''t'') = Inr r \<and>
        obj_get r ''undefined'' = Some [[(''s'', JNum 7)]] \<and>
        ''undefined'' \<in> set (Object_keys r))"
proof -
  let ?objs = "[[(''t'', JStr ''a'')], [(''s'', JNum 7)]]"
  have h1: "[(''s'', JNum 7)] \<in> set ?objs" by simp
  have h2: "(\<exists>fld. Field ''t'' = Field fld \<and> map_of [(''s'', JNum 7)] fld = None \<and>
                 fld \<notin> set Object_prototype_names) \<or>
            to_function (Field ''t'') [(''s'', JNum 7)] = JUndefined"
    by (simp add: Object_prototype_names_def)
  from groupBy_undefined_group [OF h1 h2] show ?thesis
    by (simp add: get_prop_def Object_prototype_names_def)
qed

theorem datamuseRequest_failure_only_logs_witness:
  "(\<lambda>u. Rejected ''Failed to fetch'') (DatamuseWords ''rel_rhy'' ''cat'') = Rejected ''Failed to fetch'' \<and>
   datamuseRequest (\<lambda>u. Rejected ''Failed to fetch'') (DatamuseWords ''rel_rhy'' ''cat'') rhyme_callback
     \<lparr>outputDescription = Element ''h2'' [] [], wordOutput = Element ''output'' [] [],
      wordInput = Element ''input'' [(''value'', ''cat'')] [], savedWords = Element ''span'' [] [],
      savedWordsArray = [], wordList = [], groupedResult = JSObject [] None, console = []\<rparr> =
     \<lparr>outputDescription = Element ''h2'' [] [], wordOutput = Element ''output'' [] [],
      wordInput = Element ''input'' [(''value'', ''cat'')] [], savedWords = Element ''span'' [] [],
      savedWordsArray = [], wordList = [], groupedResult = JSObject [] None, console = [''Failed to fetch'']\<rparr>"
proof -
  let ?fetch = "\<lambda>u :: url. (Rejected ''Failed to fetch'' :: response promise)"
  let ?u = "DatamuseWords ''rel_rhy'' ''cat''"
  have h: "?fetch ?u = Rejected ''Failed to fetch'' \<or>
           (\<exists>resp. ?fetch ?u = Fulfilled resp \<and> json resp = Rejected ''Failed to fetch'')"
    by simp
  from datamuseRequest_failure_only_logs [of ?fetch ?u "''Failed to fetch''", OF h]
  show ?thesis by simp
qed

theorem handlers_no_results_witness:
  "tag (wordOutput \<lparr>outputDescription = Element ''h2'' [] [], wordOutput = Element ''output'' [] [],
      wordInput = Element ''input'' [(''value'', ''cat'')] [], savedWords = Element ''span'' [] [],
      savedWordsArray = [], wordList = [], groupedResult = JSObject [] None, console = []\<rparr>) = ''output'' \<and>
   children (wordOutput (rhymeHandler (\<lambda>u. Fulfilled (Response (Fulfilled [])))
     \<lparr>outputDescription = Element ''h2'' [] [], wordOutput = Element ''output'' [] [],
      wordInput = Element ''input'' [(''value'', ''cat'')] [], savedWords = Element ''span'' [] [],
      savedWordsArray = [], wordList = [], groupedResult = JSObject [] None, console = []\<rparr>)) =
     [Text ''(no results)''] \<and>
   children (wordOutput (synonymHandler (\<lambda>u. Fulfilled (Response (Fulfilled [])))
     \<lparr>outputDescription = Element ''h2'' [] [], wordOutput = Element ''output'' [] [],
      wordInput = Element ''input'' [(''value'', ''cat'')] [], savedWords = Element ''span'' [] [],
      savedWordsArray = [], wordList = [], groupedResult = JSObject [] None, console = []\<rparr>)) =
     [Text ''(no results)'']"
proof -
  let ?st = "\<lparr>outputDescription = Element ''h2'' [] [], wordOutput = Element ''output'' [] [],
      wordInput = Element ''input'' [(''value'', ''cat'')] [], savedWords = Element ''span'' [] [],
      savedWordsArray = [], wordList = [], groupedResult = JSObject [] None, console = []\<rparr>"
  let ?fetch = "\<lambda>u :: url. Fulfilled (Response (Fulfilled []))"
  have h1: "tag (wordOutput ?st) = ''output''" by simp
  have h2: "?fetch (DatamuseWords ''rel_rhy'' (get_value (wordInput ?st))) =
              Fulfilled (Response (Fulfilled []))" by simp
  have h3: "?fetch (DatamuseWords ''ml'' (get_value (wordInput ?st))) =
              Fulfilled (Response (Fulfilled []))" by simp
  from handlers_no_results [of ?st ?fetch, OF h1 h2 h3] h1 show ?thesis by (simp only: simp_thms)
qed

end
